theory Spec2Isabelle
  imports Main "HOL-Library.Word" "HOL-Library.Multiset"
begin

section \<open>Data model of pkg/storage/batch.go\<close>

text \<open>
  The chunk-retrieval core works on pointers to lazily loaded chunks. A pointer
  \<open>*LazyChunk\<close> is an address into an explicit store, because the fetch coordinator
  writes the payload through the pointer and the planner carries the same pointers
  from one window to the next.
\<close>

datatype Direction = FORWARD | BACKWARD

text \<open>\<open>model.Time\<close> is an \<open>int64\<close> of milliseconds; \<open>time.Time\<close> is modelled by its
  instant in nanoseconds since the epoch (its range is far wider than \<open>int64\<close>
  nanoseconds, so it is an unbounded integer).\<close>

type_synonym model_Time = "64 word"
type_synonym Time = int
type_synonym Fetcher = nat
type_synonym Labels = "(string \<times> string) list"
type_synonym ptr = nat

record logproto_ChunkRef =
  Fingerprint :: "64 word"
  UserID :: string
  From :: model_Time
  Through :: model_Time
  Checksum :: "32 word"

record chunk_Chunk = logproto_ChunkRef +
  Metric :: Labels
  Data :: "string option"

record LazyChunk =
  Chunk :: chunk_Chunk
  IsValid :: bool
  Fetcher :: Fetcher

type_synonym heap = "ptr \<Rightarrow> LazyChunk"

text \<open>\<open>model.Time.Before\<close> and \<open><\<close> on \<open>model.Time\<close> compare the signed 64-bit values.\<close>

definition Before_ms :: "model_Time \<Rightarrow> model_Time \<Rightarrow> bool" where
  "Before_ms t u = (sint t < sint u)"

definition chunk_From :: "heap \<Rightarrow> ptr \<Rightarrow> model_Time" where
  "chunk_From h c = From (Chunk (h c))"

definition chunk_Through :: "heap \<Rightarrow> ptr \<Rightarrow> model_Time" where
  "chunk_Through h c = Through (Chunk (h c))"

section \<open>Interval partitioner\<close>

text \<open>
  The inner loop of \<open>partitionOverlappingChunks\<close>: scan the sequences in order and append
  \<open>c\<close> to the first one whose last chunk ends before \<open>c\<close> starts. \<open>None\<close> when the scan
  falls through (the chunk overlaps every sequence). The source reads
  \<open>cs[len(cs)-1]\<close>; every sequence is created with one element and only grows
  (lemma \<open>partition_loop_ok\<close>), so the read is always in range and the guard
  \<open>cs \<noteq> []\<close> only makes the model total.
\<close>

fun place :: "heap \<Rightarrow> ptr \<Rightarrow> ptr list list \<Rightarrow> ptr list list option" where
  "place h c [] = None"
| "place h c (cs # css) =
     (if cs \<noteq> [] \<and> Before_ms (chunk_Through h (last cs)) (chunk_From h c)
      then Some ((cs @ [c]) # css)
      else map_option ((#) cs) (place h c css))"

fun partition_loop :: "heap \<Rightarrow> ptr list \<Rightarrow> ptr list list \<Rightarrow> ptr list list" where
  "partition_loop h [] css = css"
| "partition_loop h (c # chunks) css =
     (case place h c css of
        Some css' \<Rightarrow> partition_loop h chunks css'
      | None \<Rightarrow> partition_loop h chunks (css @ [[c]]))"

text \<open>\<open>sort.Slice\<close> orders by \<open>From\<close>; it is not stable, the model takes the stable
  insertion sort as the order among chunks with equal \<open>From\<close>.\<close>

definition sort_by_From :: "heap \<Rightarrow> ptr list \<Rightarrow> ptr list" where
  "sort_by_From h chunks = sort_key (\<lambda>c. sint (chunk_From h c)) chunks"

definition partitionOverlappingChunks :: "heap \<Rightarrow> ptr list \<Rightarrow> ptr list list" where
  "partitionOverlappingChunks h chunks = partition_loop h (sort_by_From h chunks) []"

text \<open>What the claim calls a disjoint sequence: each chunk ends strictly before the next
  one starts, and the start times are in ascending order.\<close>

definition disjoint_seq :: "heap \<Rightarrow> ptr list \<Rightarrow> bool" where
  "disjoint_seq h cs =
     (successively (\<lambda>a b. Before_ms (chunk_Through h a) (chunk_From h b)) cs
      \<and> sorted (map (\<lambda>c. sint (chunk_From h c)) cs))"


section \<open>Grouping by series\<close>

text \<open>A Go map built by appending to the slice under a key is an association list with
  the keys in order of first occurrence (Go's own iteration order is unspecified; nothing
  below depends on it beyond the order of the lists handed to the fetchers).\<close>

fun group_add :: "'k \<Rightarrow> 'v \<Rightarrow> ('k \<times> 'v list) list \<Rightarrow> ('k \<times> 'v list) list" where
  "group_add k v [] = [(k, [v])]"
| "group_add k v ((k', vs) # m) =
     (if k = k' then (k', vs @ [v]) # m else (k', vs) # group_add k v m)"

type_synonym chunksBySeries = "(64 word \<times> ptr list list) list"

definition FingerprintModel :: "heap \<Rightarrow> ptr \<Rightarrow> 64 word" where
  "FingerprintModel h c = Fingerprint (Chunk (h c))"

definition partitionBySeriesChunks :: "heap \<Rightarrow> ptr list \<Rightarrow> chunksBySeries" where
  "partitionBySeriesChunks h chunks =
     (let chunksByFp = fold (\<lambda>c m. group_add (FingerprintModel h c) c m) chunks []
      in map (\<lambda>(fp, chks). (fp, partitionOverlappingChunks h chks)) chunksByFp)"

section \<open>Errors\<close>

text \<open>
  The error values the fetch path distinguishes. \<open>errors.Cause\<close> unwraps wrappers of
  \<open>github.com/pkg/errors\<close>; \<open>promql.ErrStorage\<close> is a struct holding an error and is
  not such a wrapper, so unwrapping stops there.
\<close>

datatype error =
    chunk_ErrInvalidChecksum
  | chunkenc_ErrInvalidChecksum
  | promql_ErrStorage error
  | WithCause string error
  | OtherError string
  | PanicError string

fun Cause :: "error \<Rightarrow> error" where
  "Cause (WithCause msg e) = Cause e"
| "Cause e = e"

definition isInvalidChunkError :: "error \<Rightarrow> bool" where
  "isInvalidChunkError err =
     (case Cause err of
        promql_ErrStorage e \<Rightarrow> e = chunk_ErrInvalidChecksum \<or> e = chunkenc_ErrInvalidChecksum
      | _ \<Rightarrow> False)"

section \<open>Metrics\<close>

text \<open>A \<open>CounterVec\<close> with the single label \<open>status\<close> is a function from the label value
  to the count; the histogram keeps its observations. The values added are lengths
  converted to \<open>float64\<close>, modelled as integers.\<close>

record ChunkMetrics =
  series :: "string \<Rightarrow> int"
  chunks_downloaded :: "string \<Rightarrow> int"
  batches :: "string \<Rightarrow> int list"

definition statusDiscarded :: string where
  "statusDiscarded = ''discarded''"

definition statusMatched :: string where
  "statusMatched = ''matched''"

definition Add_series :: "string \<Rightarrow> int \<Rightarrow> ChunkMetrics \<Rightarrow> ChunkMetrics" where
  "Add_series status n m = m\<lparr>series := (series m)(status := series m status + n)\<rparr>"

definition Add_chunks :: "string \<Rightarrow> int \<Rightarrow> ChunkMetrics \<Rightarrow> ChunkMetrics" where
  "Add_chunks status n m =
     m\<lparr>chunks_downloaded := (chunks_downloaded m)(status := chunks_downloaded m status + n)\<rparr>"

definition Observe_batches :: "string \<Rightarrow> int \<Rightarrow> ChunkMetrics \<Rightarrow> ChunkMetrics" where
  "Observe_batches status n m = m\<lparr>batches := (batches m)(status := batches m status @ [n])\<rparr>"

section \<open>Series filter\<close>

text \<open>Of \<open>labels.Matcher\<close> only the name and the \<open>Matches\<close> method are used; of
  \<open>labels.Labels\<close> only \<open>Get\<close>, which returns the empty string for a missing name. A
  \<open>chunk.Filterer\<close> is an interface value and may be nil.\<close>

record Matcher =
  Name :: string
  Matches :: "string \<Rightarrow> bool"

definition Get :: "Labels \<Rightarrow> string \<Rightarrow> string" where
  "Get ls n = (case map_of ls n of Some v \<Rightarrow> v | None \<Rightarrow> [])"

type_synonym Filterer = "(Labels \<Rightarrow> bool) option"

text \<open>\<open>chunks[0][0].Chunk.Metric\<close>: \<open>None\<close> where the index is out of range (Go panics).\<close>

definition first_Metric :: "heap \<Rightarrow> ptr list list \<Rightarrow> Labels option" where
  "first_Metric h chunks =
     (case chunks of
        [] \<Rightarrow> None
      | [] # _ \<Rightarrow> None
      | (c # _) # _ \<Rightarrow> Some (Metric (Chunk (h c))))"

text \<open>The body of the loop over one series: \<open>Some True\<close> when the series is removed,
  \<open>Some False\<close> when it stays, \<open>None\<close> when \<open>chunks[0][0]\<close> panics. The element is read
  only when a matcher or a filterer is evaluated.\<close>

fun fails_matcher :: "heap \<Rightarrow> ptr list list \<Rightarrow> Matcher list \<Rightarrow> bool option" where
  "fails_matcher h chunks [] = Some False"
| "fails_matcher h chunks (matcher # ms) =
     (case first_Metric h chunks of
        None \<Rightarrow> None
      | Some metric \<Rightarrow>
          if \<not> Matches matcher (Get metric (Name matcher)) then Some True
          else fails_matcher h chunks ms)"

definition series_removed :: "heap \<Rightarrow> ptr list list \<Rightarrow> Matcher list \<Rightarrow> Filterer \<Rightarrow> bool option" where
  "series_removed h chunks matchers chunkFilterer =
     (case fails_matcher h chunks matchers of
        None \<Rightarrow> None
      | Some True \<Rightarrow> Some True
      | Some False \<Rightarrow>
          (case chunkFilterer of
             None \<Rightarrow> Some False
           | Some ShouldFilter \<Rightarrow>
               (case first_Metric h chunks of
                  None \<Rightarrow> None
                | Some metric \<Rightarrow> Some (ShouldFilter metric))))"

text \<open>The local state of \<open>filterSeriesByMatchers\<close>: the map being pruned and the two
  counters the closure \<open>removeSeries\<close> updates.\<close>

record filter_state =
  f_chks :: chunksBySeries
  filteredSeries :: int
  filteredChks :: int

definition removeSeries :: "64 word \<Rightarrow> ptr list list \<Rightarrow> filter_state \<Rightarrow> filter_state" where
  "removeSeries fp chunks st =
     st\<lparr>f_chks := filter (\<lambda>(k, v). k \<noteq> fp) (f_chks st),
        filteredSeries := filteredSeries st + 1,
        filteredChks := fold (\<lambda>grp n. n + int (length grp)) chunks (filteredChks st)\<rparr>"

fun filter_loop ::
  "heap \<Rightarrow> Matcher list \<Rightarrow> Filterer \<Rightarrow> chunksBySeries \<Rightarrow> filter_state \<Rightarrow> filter_state option" where
  "filter_loop h matchers chunkFilterer [] st = Some st"
| "filter_loop h matchers chunkFilterer ((fp, chunks) # rest) st =
     (case series_removed h chunks matchers chunkFilterer of
        None \<Rightarrow> None
      | Some True \<Rightarrow> filter_loop h matchers chunkFilterer rest (removeSeries fp chunks st)
      | Some False \<Rightarrow> filter_loop h matchers chunkFilterer rest st)"

text \<open>\<open>None\<close> is the panic; otherwise the pruned map and the updated metrics.\<close>

definition filterSeriesByMatchers ::
  "heap \<Rightarrow> chunksBySeries \<Rightarrow> Matcher list \<Rightarrow> Filterer \<Rightarrow> ChunkMetrics
   \<Rightarrow> (chunksBySeries \<times> ChunkMetrics) option" where
  "filterSeriesByMatchers h chks0 matchers chunkFilterer metrics =
     (case filter_loop h matchers chunkFilterer chks0
             \<lparr>f_chks = chks0, filteredSeries = 0, filteredChks = 0\<rparr> of
        None \<Rightarrow> None
      | Some st \<Rightarrow>
          Some (f_chks st,
                Add_series statusDiscarded (filteredSeries st)
                  (Add_chunks statusDiscarded (filteredChks st) metrics)))"

section \<open>Fetch coordinator\<close>

text \<open>
  Storage and the context are external. For one call of \<open>fetchLazyChunks\<close> a
  \<open>Response\<close> gives what \<open>FetchChunks\<close> returns for each fetcher, whether the goroutine
  of a fetcher finds \<open>ctx.Err()\<close> non-nil once \<open>FetchChunks\<close> has returned, and the
  order in which the goroutines' reports arrive on \<open>errChan\<close>. A
  \<open>config.SchemaConfig\<close> is used for \<open>ExternalKey\<close> only.
\<close>

type_synonym SchemaConfig = "logproto_ChunkRef \<Rightarrow> string"

record Response =
  FetchChunks :: "Fetcher \<Rightarrow> chunk_Chunk list \<Rightarrow> chunk_Chunk list \<times> error option"
  ctx_Err :: "Fetcher \<Rightarrow> bool"
  arrival :: "(Fetcher \<times> ptr list) list \<Rightarrow> (Fetcher \<times> ptr list) list"

definition ExternalKey :: "SchemaConfig \<Rightarrow> chunk_Chunk \<Rightarrow> string" where
  "ExternalKey s chk = s (logproto_ChunkRef.truncate chk)"

text \<open>The first loop of \<open>fetchLazyChunks\<close>: a chunk goes into the group of its fetcher
  only when its payload is nil.\<close>

definition chksByFetcher :: "heap \<Rightarrow> ptr list \<Rightarrow> (Fetcher \<times> ptr list) list" where
  "chksByFetcher h chunks =
     fold (\<lambda>c m. if Data (Chunk (h c)) = None then group_add (Fetcher (h c)) c m else m) chunks []"

text \<open>What one goroutine sends and writes: it crashes the process when a returned chunk
  has a key that is not in its index (a nil pointer is dereferenced outside the reach of
  \<open>nextBatch\<close>'s \<open>recover\<close>); otherwise it reports an error or nil, and the chunks it
  assigns through the pointers.\<close>

datatype report = Crashed | Reported "error option" "(ptr \<times> chunk_Chunk) list"

definition build_index :: "SchemaConfig \<Rightarrow> heap \<Rightarrow> ptr list \<Rightarrow> (string \<rightharpoonup> ptr)" where
  "build_index s h cs = fold (\<lambda>chk index. index(ExternalKey s (Chunk (h chk)) \<mapsto> chk)) cs Map.empty"

fun assign_fetched ::
  "SchemaConfig \<Rightarrow> (string \<rightharpoonup> ptr) \<Rightarrow> chunk_Chunk list \<Rightarrow> (ptr \<times> chunk_Chunk) list option" where
  "assign_fetched s index [] = Some []"
| "assign_fetched s index (chk # chks) =
     (case index (ExternalKey s chk) of
        None \<Rightarrow> None
      | Some p \<Rightarrow> map_option ((#) (p, chk)) (assign_fetched s index chks))"

definition goroutine :: "Response \<Rightarrow> SchemaConfig \<Rightarrow> heap \<Rightarrow> Fetcher \<times> ptr list \<Rightarrow> report" where
  "goroutine r s h g =
     (case g of (fetcher, cs) \<Rightarrow>
        (let index = build_index s h cs;
             (fetched, err) = FetchChunks r fetcher (map (\<lambda>chk. Chunk (h chk)) cs)
         in if ctx_Err r fetcher then Reported None []
            else (case err of
                    Some e \<Rightarrow> if isInvalidChunkError e then Reported None [] else Reported (Some e) []
                  | None \<Rightarrow>
                      (case assign_fetched s index fetched of
                         None \<Rightarrow> Crashed
                       | Some ws \<Rightarrow> Reported None ws))))"

text \<open>The receiving loop: \<open>lastErr\<close> is overwritten by every non-nil error received.\<close>

fun receive :: "report list \<Rightarrow> error option \<Rightarrow> error option" where
  "receive [] lastErr = lastErr"
| "receive (Reported (Some err) ws # rs) lastErr = receive rs (Some err)"
| "receive (_ # rs) lastErr = receive rs lastErr"

definition write_Chunk :: "ptr \<times> chunk_Chunk \<Rightarrow> heap \<Rightarrow> heap" where
  "write_Chunk w h = (case w of (p, chk) \<Rightarrow> h(p := (h p)\<lparr>Chunk := chk\<rparr>))"

fun writes_of :: "report \<Rightarrow> (ptr \<times> chunk_Chunk) list" where
  "writes_of Crashed = []"
| "writes_of (Reported err ws) = ws"

definition mark_valid :: "ptr list \<Rightarrow> heap \<Rightarrow> heap" where
  "mark_valid chunks h =
     fold (\<lambda>c h'. if Data (Chunk (h' c)) \<noteq> None then h'(c := (h' c)\<lparr>IsValid := True\<rparr>) else h') chunks h"

text \<open>\<open>None\<close>: a goroutine crashed the process. Otherwise the returned error and the store
  as the goroutines left it.\<close>

definition fetchLazyChunks ::
  "Response \<Rightarrow> SchemaConfig \<Rightarrow> heap \<Rightarrow> ptr list \<Rightarrow> (error option \<times> heap) option" where
  "fetchLazyChunks r s h chunks =
     (let groups = chksByFetcher h chunks
      in if length groups = 0 then Some (None, h)
         else (let reports = map (goroutine r s h) (arrival r groups)
               in if Crashed \<in> set reports then None
                  else (let h' = fold write_Chunk (concat (map writes_of reports)) h
                        in case receive reports None of
                             Some lastErr \<Rightarrow> Some (Some lastErr, h')
                           | None \<Rightarrow> Some (None, mark_valid chunks h'))))"

definition loadFirstChunks ::
  "Response \<Rightarrow> SchemaConfig \<Rightarrow> heap \<Rightarrow> chunksBySeries \<Rightarrow> (error option \<times> heap) option" where
  "loadFirstChunks r s h chks0 =
     (let toLoad = concat (map (\<lambda>(fp, lchks). concat (map (\<lambda>lchk. take 1 lchk) lchks)) chks0)
      in fetchLazyChunks r s h toLoad)"

text \<open>The outcomes of \<open>fetchChunkBySeries\<close>: the process crashed in a fetch goroutine, it
  panicked in its own goroutine (in the series filter), it returned an error, or it
  returned the map. Each carries the store and the metrics as they are then.\<close>

datatype fetched =
    Fetch_Crash
  | Fetch_Panic heap
  | Fetch_Err error heap ChunkMetrics
  | Fetch_Ok chunksBySeries heap ChunkMetrics

definition allChunks_of :: "chunksBySeries \<Rightarrow> ptr list" where
  "allChunks_of chks0 = concat (map (\<lambda>(fp, series). concat series) chks0)"

definition fetchChunkBySeries ::
  "Response \<Rightarrow> Response \<Rightarrow> SchemaConfig \<Rightarrow> ChunkMetrics \<Rightarrow> heap \<Rightarrow> ptr list \<Rightarrow> Matcher list
   \<Rightarrow> Filterer \<Rightarrow> fetched" where
  "fetchChunkBySeries r1 r2 s metrics h chunks matchers chunkFilter =
     (let chksBySeries = partitionBySeriesChunks h chunks
      in case loadFirstChunks r1 s h chksBySeries of
           None \<Rightarrow> Fetch_Crash
         | Some (Some err, h1) \<Rightarrow> Fetch_Err err h1 metrics
         | Some (None, h1) \<Rightarrow>
             (case filterSeriesByMatchers h1 chksBySeries matchers chunkFilter metrics of
                None \<Rightarrow> Fetch_Panic h1
              | Some (chksBySeries', metrics1) \<Rightarrow>
                  (let allChunks = allChunks_of chksBySeries'
                   in case fetchLazyChunks r2 s h1 allChunks of
                        None \<Rightarrow> Fetch_Crash
                      | Some (Some err, h2) \<Rightarrow> Fetch_Err err h2 metrics1
                      | Some (None, h2) \<Rightarrow>
                          Fetch_Ok chksBySeries' h2
                            (Observe_batches statusDiscarded
                               (int (length chunks) - int (length allChunks))
                               (Observe_batches statusMatched (int (length allChunks))
                                  (Add_series statusMatched (int (length chksBySeries'))
                                     (Add_chunks statusMatched (int (length allChunks))
                                        metrics1)))))))"

section \<open>Batch planner\<close>

subsection \<open>Time\<close>

text \<open>\<open>model.Time.UnixNano\<close> multiplies the \<open>int64\<close> milliseconds by \<open>1000000\<close> in
  \<open>int64\<close>; \<open>time.Unix(0, n)\<close> is the instant \<open>n\<close>. \<open>Time.Sub\<close> saturates at the
  least and greatest \<open>Duration\<close>. The zero \<open>time.Time\<close> is January 1 of year 1.\<close>

definition UnixNano :: "model_Time \<Rightarrow> Time" where
  "UnixNano t = sint (t * 1000000)"

definition Sub :: "Time \<Rightarrow> Time \<Rightarrow> int" where
  "Sub t u =
     (let d = t - u
      in if d < - (2 ^ 63) then - (2 ^ 63) else if 2 ^ 63 - 1 < d then 2 ^ 63 - 1 else d)"

definition zero_Time :: Time where
  "zero_Time = - 62135596800000000000"

subsection \<open>The sorted chunk set\<close>

text \<open>
  Modelled from the spec: the type \<open>lazyChunks\<close> with its methods \<open>Len\<close>, \<open>Peek\<close> and
  \<open>pop\<close> is declared outside src/. The spec has the planner "pop up to batchSize chunk
  references from the front of the remaining globally time-sorted set", with the head
  chunk "the first popped chunk" and the next chunk "the first remaining chunk". The
  set is the list of what remains, front first; \<open>Peek\<close> of an empty set is \<open>None\<close>
  (an index out of range).
\<close>

type_synonym lazyChunks = "ptr list"

definition Len :: "lazyChunks \<Rightarrow> int" where
  "Len l = int (length l)"

definition Peek :: "lazyChunks \<Rightarrow> ptr option" where
  "Peek l = (case l of [] \<Rightarrow> None | c # _ \<Rightarrow> Some c)"

definition pop :: "int \<Rightarrow> lazyChunks \<Rightarrow> ptr list \<times> lazyChunks" where
  "pop n l = (take (nat n) l, drop (nat n) l)"

text \<open>
  Modelled from the spec: \<open>LazyChunk.IsOverlapping\<close> is declared outside src/. The spec
  has a chunk retained when its "span overlaps nextChunk's span (by the partitioner's
  overlap test, direction-aware)"; the partitioner's test for no overlap is that one
  chunk's \<open>Through\<close> is before the other's \<open>From\<close>. Forward, the chunk does not end
  before the next one starts; backward, the next one does not end before the chunk
  starts.
\<close>

definition IsOverlapping :: "heap \<Rightarrow> ptr \<Rightarrow> ptr \<Rightarrow> Direction \<Rightarrow> bool" where
  "IsOverlapping h c w d =
     (if d = BACKWARD then \<not> Before_ms (chunk_Through h w) (chunk_From h c)
      else \<not> Before_ms (chunk_Through h c) (chunk_From h w))"

subsection \<open>The iterator and one planning step\<close>

text \<open>The fields of \<open>batchChunkIterator\<close> but the context and the channel, which the
  production loop below models. The metrics field is \<open>chunks\<close> in the source; here
  \<open>chunks_downloaded\<close>, since \<open>chunks\<close> is the iterator's chunk set.\<close>

record batchChunkIterator =
  schemas :: SchemaConfig
  chunks :: lazyChunks
  batchSize :: int
  lastOverlapping :: "ptr list"
  metrics :: ChunkMetrics
  matchers :: "Matcher list"
  chunkFilterer :: Filterer
  begun :: bool
  start :: Time
  end' :: Time
  direction :: Direction

text \<open>The local variables of \<open>nextBatch\<close> that the loop updates.\<close>

record locals =
  v_batch :: "ptr list"
  v_from :: Time
  v_through :: Time
  v_nextChunk :: "ptr option"
  v_includesOverlap :: bool

datatype step =
    ReturnNil batchChunkIterator
  | Panicked batchChunkIterator
  | Break batchChunkIterator locals
  | Continue batchChunkIterator locals

text \<open>Lines 198 to 233: with a chunk remaining, it becomes \<open>nextChunk\<close> and bounds the
  window on the far side.\<close>

definition bounds_from_next :: "heap \<Rightarrow> ptr \<Rightarrow> batchChunkIterator \<Rightarrow> locals \<Rightarrow> locals" where
  "bounds_from_next h n it v =
     (if direction it = BACKWARD
      then (let from = UnixNano (chunk_Through h n)
            in v\<lparr>v_nextChunk := Some n,
                 v_from := (if from \<noteq> start it then from + 1 else from)\<rparr>)
      else v\<lparr>v_nextChunk := Some n, v_through := UnixNano (chunk_From h n)\<rparr>)"

text \<open>Lines 268 to 272: leave the loop once the window has positive width.\<close>

definition check_width :: "batchChunkIterator \<Rightarrow> locals \<Rightarrow> step" where
  "check_width it v = (if 0 < Sub (v_through v) (v_from v) then Break it v else Continue it v)"

text \<open>Lines 235 to 266: the head chunk bounds the window on the near side.\<close>

definition bounds_from_head :: "heap \<Rightarrow> ptr \<Rightarrow> batchChunkIterator \<Rightarrow> locals \<Rightarrow> step" where
  "bounds_from_head h headChunk it v =
     (if direction it = BACKWARD
      then (let through = UnixNano (chunk_Through h headChunk);
                through = (if end' it < through then end' it else through);
                through = (if through \<noteq> end' it then through + 1 else through)
            in check_width it (v\<lparr>v_through := through\<rparr>))
      else (let from = UnixNano (chunk_From h headChunk)
            in if from = end' it \<and> end' it \<noteq> start it then ReturnNil it
               else (let from = (if from = end' it then end' it else from);
                         from = (if from < start it then start it else from)
                     in check_width it (v\<lparr>v_from := from\<rparr>))))"

text \<open>One pass through the body of the \<open>for\<close> loop.\<close>

definition loop_body :: "heap \<Rightarrow> ptr \<Rightarrow> batchChunkIterator \<Rightarrow> locals \<Rightarrow> step" where
  "loop_body h headChunk it v =
     (let batch1 = (if \<not> v_includesOverlap v \<and> direction it = FORWARD
                    then v_batch v @ lastOverlapping it else v_batch v);
          (popped, rest) = pop (batchSize it) (chunks it);
          it1 = it\<lparr>chunks := rest\<rparr>;
          batch2 = batch1 @ popped;
          batch3 = (if \<not> v_includesOverlap v \<and> direction it = BACKWARD
                    then batch2 @ lastOverlapping it else batch2);
          v1 = v\<lparr>v_batch := batch3, v_includesOverlap := True\<rparr>
      in if 0 < Len (chunks it1)
         then (case Peek (chunks it1) of
                 None \<Rightarrow> Panicked it1
               | Some n \<Rightarrow> bounds_from_head h headChunk it1 (bounds_from_next h n it1 v1))
         else bounds_from_head h headChunk it1 v1)"

text \<open>The \<open>for\<close> loop. It need not end (a batch size of zero pops nothing), so not
  returning is the value \<open>None\<close>. The loop never yields \<open>Continue\<close>: leaving it by
  \<open>break\<close> or by its condition is \<open>Break\<close>.\<close>

partial_function (option) nextBatch_loop ::
  "heap \<Rightarrow> ptr \<Rightarrow> batchChunkIterator \<Rightarrow> locals \<Rightarrow> step option" where
  "nextBatch_loop h headChunk it v =
     (if 0 < Len (chunks it)
      then (case loop_body h headChunk it v of
              Continue it' v' \<Rightarrow> nextBatch_loop h headChunk it' v'
            | ReturnNil it' \<Rightarrow> Some (ReturnNil it')
            | Panicked it' \<Rightarrow> Some (Panicked it')
            | Break it' v' \<Rightarrow> Some (Break it' v'))
      else Some (Break it v))"

declare nextBatch_loop.simps [code]

text \<open>Lines 286 to 293: the carry for the next step. \<open>IsOverlapping\<close> dereferences
  \<open>nextChunk\<close>, so a nil \<open>nextChunk\<close> panics as soon as the batch has an element.\<close>

definition carry_over :: "heap \<Rightarrow> ptr list \<Rightarrow> ptr option \<Rightarrow> Direction \<Rightarrow> ptr list option" where
  "carry_over h batch n d =
     (case n of
        None \<Rightarrow> if batch = [] then Some [] else None
      | Some w \<Rightarrow> Some (filter (\<lambda>c. IsOverlapping h c w d) batch))"

datatype plan =
    Plan_Panic batchChunkIterator
  | Plan_Nil batchChunkIterator
  | Plan batchChunkIterator locals

text \<open>Lines 275 to 293: the reset of the bounds and the new carry.\<close>

definition after_loop :: "heap \<Rightarrow> batchChunkIterator \<Rightarrow> locals \<Rightarrow> plan" where
  "after_loop h it v =
     (let v1 = (if Sub (v_through v) (v_from v) \<le> 0
                then (if direction it = BACKWARD then v\<lparr>v_from := start it\<rparr>
                      else v\<lparr>v_through := end' it\<rparr>)
                else v)
      in if 0 < Len (chunks it)
         then (case carry_over h (v_batch v1) (v_nextChunk v1) (direction it) of
                 None \<Rightarrow> Plan_Panic it
               | Some keep \<Rightarrow> Plan (it\<lparr>lastOverlapping := keep\<rparr>) v1)
         else Plan it v1)"

text \<open>\<open>nextBatch\<close> up to the call of \<open>fetchChunkBySeries\<close>. \<open>make\<close> panics on a negative
  capacity.\<close>

definition nextBatch_plan :: "heap \<Rightarrow> batchChunkIterator \<Rightarrow> plan option" where
  "nextBatch_plan h it =
     (case Peek (chunks it) of
        None \<Rightarrow> Some (Plan_Panic it)
      | Some headChunk \<Rightarrow>
          if batchSize it + int (length (lastOverlapping it)) < 0 then Some (Plan_Panic it)
          else (case nextBatch_loop h headChunk it
                       \<lparr>v_batch = [], v_from = start it, v_through = end' it,
                        v_nextChunk = None, v_includesOverlap = False\<rparr> of
                  None \<Rightarrow> None
                | Some (ReturnNil it') \<Rightarrow> Some (Plan_Nil it')
                | Some (Panicked it') \<Rightarrow> Some (Plan_Panic it')
                | Some (Break it' v) \<Rightarrow> Some (after_loop h it' v)
                | Some (Continue it' v) \<Rightarrow> Some (after_loop h it' v)))"

record chunkBatch =
  chunksBySeries :: chunksBySeries
  err :: "error option"
  from' :: Time
  through' :: Time
  nextChunk :: "ptr option"

text \<open>\<open>&chunkBatch{err: err}\<close>: every other field has its zero value.\<close>

definition error_batch :: "error \<Rightarrow> chunkBatch" where
  "error_batch e =
     \<lparr>chunksBySeries = [], err = Some e, from' = zero_Time, through' = zero_Time,
      nextChunk = None\<rparr>"

definition panic_batch :: chunkBatch where
  "panic_batch = error_batch (PanicError ''panic while fecthing chunks'')"

text \<open>What a call of \<open>nextBatch\<close> comes to: the process crashed in a fetch goroutine, or
  it returned nil or a batch. \<open>None\<close> when the call does not return. The two responses
  are those of the two calls of \<open>fetchLazyChunks\<close> in the step.\<close>

datatype result = Process_Crash | Returned "chunkBatch option"

definition nextBatch ::
  "Response \<Rightarrow> Response \<Rightarrow> batchChunkIterator \<Rightarrow> heap
   \<Rightarrow> (result \<times> batchChunkIterator \<times> heap) option" where
  "nextBatch r1 r2 it h =
     (case nextBatch_plan h it of
        None \<Rightarrow> None
      | Some (Plan_Panic it') \<Rightarrow> Some (Returned (Some panic_batch), it', h)
      | Some (Plan_Nil it') \<Rightarrow> Some (Returned None, it', h)
      | Some (Plan it' v) \<Rightarrow>
          (case fetchChunkBySeries r1 r2 (schemas it') (metrics it') h (v_batch v)
                  (matchers it') (chunkFilterer it') of
             Fetch_Crash \<Rightarrow> Some (Process_Crash, it', h)
           | Fetch_Panic h' \<Rightarrow> Some (Returned (Some panic_batch), it', h')
           | Fetch_Err e h' m' \<Rightarrow> Some (Returned (Some (error_batch e)), it'\<lparr>metrics := m'\<rparr>, h')
           | Fetch_Ok cbs h' m' \<Rightarrow>
               Some (Returned (Some \<lparr>chunksBySeries = cbs, err = None, from' = v_from v,
                                     through' = v_through v, nextChunk = v_nextChunk v\<rparr>),
                     it'\<lparr>metrics := m'\<rparr>, h')))"

subsection \<open>The production loop\<close>

text \<open>
  \<open>loop\<close> runs in its own goroutine and hands each window over an unbuffered channel.
  One \<open>round\<close> is one pass through its body as the environment resolves it: the two
  fetch responses of the step, and whether the \<open>select\<close> takes the \<open>ctx.Done()\<close> case
  (\<open>True\<close>) or the consumer receives the window (\<open>False\<close>). Go evaluates the operand
  \<open>it.nextBatch()\<close> of the send before it selects. The rounds run out when the consumer
  stops receiving and the context is never cancelled: the goroutine then stays blocked.
\<close>

record round =
  select_done :: bool
  first_fetch :: Response
  rest_fetch :: Response

datatype event = Deliver "chunkBatch option" | Closed | Crash

fun loop :: "batchChunkIterator \<Rightarrow> heap \<Rightarrow> round list \<Rightarrow> event list option" where
  "loop it h [] = Some []"
| "loop it h (r # rs) =
     (if Len (chunks it) = 0 then Some [Closed]
      else (case nextBatch (first_fetch r) (rest_fetch r) it h of
              None \<Rightarrow> None
            | Some (Process_Crash, it', h') \<Rightarrow> Some [Crash]
            | Some (Returned b, it', h') \<Rightarrow>
                if select_done r then Some [Closed]
                else map_option ((#) (Deliver b)) (loop it' h' rs)))"

subsection \<open>Constructors\<close>

definition remove_first :: "string \<Rightarrow> Matcher list \<Rightarrow> Matcher list" where
  "remove_first omit ms =
     takeWhile (\<lambda>m. Name m \<noteq> omit) ms @ drop 1 (dropWhile (\<lambda>m. Name m \<noteq> omit) ms)"

definition removeMatchersByName :: "Matcher list \<Rightarrow> string list \<Rightarrow> Matcher list" where
  "removeMatchersByName ms names = fold remove_first names ms"

text \<open>The two names are constants of other packages: \<open>labels.MetricName\<close> and
  \<open>astmapper.ShardLabel\<close>.\<close>

definition labels_MetricName :: string where
  "labels_MetricName = ''__name__''"

definition astmapper_ShardLabel :: string where
  "astmapper_ShardLabel = ''__cortex_shard__''"

text \<open>
  Modelled from the spec: \<open>sort.Sort(res.chunks)\<close> uses \<open>lazyChunks.Less\<close>, declared
  outside src/. The spec has the set "globally time-sorted (in query direction)":
  ascending by start time forward, descending by end time backward.
\<close>

definition sort_lazyChunks :: "heap \<Rightarrow> Direction \<Rightarrow> ptr list \<Rightarrow> lazyChunks" where
  "sort_lazyChunks h d cs =
     (if d = FORWARD then sort_key (\<lambda>c. sint (chunk_From h c)) cs
      else sort_key (\<lambda>c. - sint (chunk_Through h c)) cs)"

definition newBatchChunkIterator ::
  "heap \<Rightarrow> SchemaConfig \<Rightarrow> ptr list \<Rightarrow> int \<Rightarrow> Direction \<Rightarrow> Time \<Rightarrow> Time \<Rightarrow> ChunkMetrics
   \<Rightarrow> Matcher list \<Rightarrow> Filterer \<Rightarrow> batchChunkIterator" where
  "newBatchChunkIterator h s cs bs d st en m ms cf =
     \<lparr>schemas = s,
      chunks = sort_lazyChunks h d cs,
      batchSize = bs,
      lastOverlapping = [],
      metrics = m,
      matchers = removeMatchersByName ms [labels_MetricName, astmapper_ShardLabel],
      chunkFilterer = cf,
      begun = False,
      start = st,
      end' = en,
      direction = d\<rparr>"

text \<open>The sample variant of the stream builder: the embedded iterator, the error and
  the extractors (opaque here). It has no direction parameter.\<close>

record sampleBatchIterator =
  batchChunkIterator :: batchChunkIterator
  sample_err :: "error option"
  extractors :: "nat list"

definition newSampleBatchIterator ::
  "heap \<Rightarrow> SchemaConfig \<Rightarrow> ChunkMetrics \<Rightarrow> ptr list \<Rightarrow> int \<Rightarrow> Matcher list \<Rightarrow> Time \<Rightarrow> Time
   \<Rightarrow> Filterer \<Rightarrow> nat list \<Rightarrow> sampleBatchIterator \<times> error option" where
  "newSampleBatchIterator h s m cs bs ms st en cf exs =
     (\<lparr>batchChunkIterator = newBatchChunkIterator h s cs bs FORWARD st en m ms cf,
       sample_err = None,
       extractors = exs\<rparr>, None)"

section \<open>Example inputs\<close>

text \<open>Three chunks of one series, spans \<open>[0,10]\<close>, \<open>[5,15]\<close> and \<open>[20,30]\<close> milliseconds,
  at the addresses 0, 1 and 2 (the first scenario of the spec); nothing is loaded yet, and
  the external key of a chunk is its \<open>UserID\<close>, which tells the three apart.\<close>

definition example_chunk ::
  "64 word \<Rightarrow> Fetcher \<Rightarrow> string \<Rightarrow> model_Time \<Rightarrow> model_Time \<Rightarrow> LazyChunk" where
  "example_chunk fp f key t u =
     \<lparr>Chunk = \<lparr>Fingerprint = fp, UserID = key, From = t, Through = u, Checksum = 0,
               Metric = [(''foo'', ''bar'')], Data = None\<rparr>,
      IsValid = False, Fetcher = f\<rparr>"

definition example_heap :: heap where
  "example_heap p =
     (if p = 0 then example_chunk 1 0 ''a'' 0 10
      else if p = 1 then example_chunk 1 0 ''b'' 5 15
      else example_chunk 1 0 ''c'' 20 30)"

definition example_schema :: SchemaConfig where
  "example_schema ref = UserID ref"

definition example_metrics :: ChunkMetrics where
  "example_metrics = \<lparr>series = (\<lambda>status. 0), chunks_downloaded = (\<lambda>status. 0),
                       batches = (\<lambda>status. [])\<rparr>"

text \<open>A storage that loads every chunk it is asked for, under a context that is never
  cancelled, the reports arriving in the order of the groups.\<close>

definition example_response :: Response where
  "example_response =
     \<lparr>FetchChunks = (\<lambda>f cs. (map (\<lambda>c. c\<lparr>Data := Some ''payload''\<rparr>) cs, None)),
      ctx_Err = (\<lambda>f. False),
      arrival = (\<lambda>gs. gs)\<rparr>"

text \<open>The iterator over the three chunks for the query from 0 to \<open>en\<close> nanoseconds.\<close>

definition example_it :: "Direction \<Rightarrow> int \<Rightarrow> Time \<Rightarrow> batchChunkIterator" where
  "example_it d bs en =
     newBatchChunkIterator example_heap example_schema [0, 1, 2] bs d 0 en example_metrics [] None"

section \<open>Definitions for the statements and proofs\<close>

subsection \<open>Interval partitioner\<close>

text \<open>A sequence under construction: not empty, disjoint, and no chunk in it starts
  after \<open>k\<close>, the start of the chunk being placed.\<close>

definition seq_ok :: "heap \<Rightarrow> int \<Rightarrow> ptr list \<Rightarrow> bool" where
  "seq_ok h k cs = (cs \<noteq> [] \<and> disjoint_seq h cs \<and> (\<forall>a\<in>set cs. sint (chunk_From h a) \<le> k))"

subsection \<open>The window bounds as the spec words them\<close>

text \<open>
  Forward, \<open>from\<close> is the head chunk's \<open>From\<close>, not before the query start, and
  \<open>through\<close> is the \<open>From\<close> of the first remaining chunk, else the query end. Backward,
  \<open>through\<close> is the head chunk's \<open>Through\<close>, not after the query end and one nanosecond
  later unless it is the query end, and \<open>from\<close> is the \<open>Through\<close> of the first remaining
  chunk, one nanosecond later unless it is the query start, else the query start.
  Forward, a head chunk that starts at the query end yields no window unless the query
  is a single instant.
\<close>

definition head_from :: "heap \<Rightarrow> batchChunkIterator \<Rightarrow> ptr \<Rightarrow> Time" where
  "head_from h it hc =
     (let f = UnixNano (chunk_From h hc) in if f < start it then start it else f)"

definition head_through :: "heap \<Rightarrow> batchChunkIterator \<Rightarrow> ptr \<Rightarrow> Time" where
  "head_through h it hc =
     (let t = UnixNano (chunk_Through h hc);
          t = (if end' it < t then end' it else t)
      in if t \<noteq> end' it then t + 1 else t)"

definition next_through :: "heap \<Rightarrow> batchChunkIterator \<Rightarrow> ptr list \<Rightarrow> Time" where
  "next_through h it rest = (case rest of [] \<Rightarrow> end' it | n # _ \<Rightarrow> UnixNano (chunk_From h n))"

definition next_from :: "heap \<Rightarrow> batchChunkIterator \<Rightarrow> ptr list \<Rightarrow> Time" where
  "next_from h it rest =
     (case rest of
        [] \<Rightarrow> start it
      | n # _ \<Rightarrow> (let f = UnixNano (chunk_Through h n) in if f \<noteq> start it then f + 1 else f))"

definition yields_nil :: "heap \<Rightarrow> batchChunkIterator \<Rightarrow> ptr \<Rightarrow> bool" where
  "yields_nil h it hc =
     (direction it = FORWARD \<and> UnixNano (chunk_From h hc) = end' it \<and> end' it \<noteq> start it)"

text \<open>Every remaining chunk reaches into the query range on the side the planner does
  not clamp: forward it starts no later than the query end, backward it ends no earlier
  than the query start. A chunk that intersects the query range does both.\<close>

definition within_query :: "heap \<Rightarrow> batchChunkIterator \<Rightarrow> bool" where
  "within_query h it =
     (\<forall>c\<in>set (chunks it).
        (direction it = FORWARD \<longrightarrow> UnixNano (chunk_From h c) \<le> end' it) \<and>
        (direction it = BACKWARD \<longrightarrow> start it \<le> UnixNano (chunk_Through h c)))"

definition bounded :: "batchChunkIterator \<Rightarrow> locals \<Rightarrow> bool" where
  "bounded it v = (start it \<le> v_from v \<and> v_through v \<le> end' it)"

subsection \<open>The loop of nextBatch\<close>

fun step_it :: "step \<Rightarrow> batchChunkIterator" where
  "step_it (ReturnNil it) = it"
| "step_it (Panicked it) = it"
| "step_it (Break it v) = it"
| "step_it (Continue it v) = it"

text \<open>The initial values of the local variables.\<close>

definition v_init :: "batchChunkIterator \<Rightarrow> locals" where
  "v_init it = \<lparr>v_batch = [], v_from = start it, v_through = end' it,
               v_nextChunk = None, v_includesOverlap = False\<rparr>"

text \<open>The batch after one more pass: the carry goes in on the first pass only, before the
  popped chunks forward and after them backward.\<close>

definition grown_batch :: "batchChunkIterator \<Rightarrow> locals \<Rightarrow> ptr list" where
  "grown_batch it v =
     (let popped = take (nat (batchSize it)) (chunks it)
      in if v_includesOverlap v then v_batch v @ popped
         else if direction it = FORWARD then v_batch v @ lastOverlapping it @ popped
         else v_batch v @ popped @ lastOverlapping it)"

text \<open>The local variables after one more pass that did not return nil.\<close>

definition next_locals :: "heap \<Rightarrow> ptr \<Rightarrow> batchChunkIterator \<Rightarrow> locals \<Rightarrow> locals" where
  "next_locals h hc it v =
     (let rest = drop (nat (batchSize it)) (chunks it)
      in \<lparr>v_batch = grown_batch it v,
          v_from = (if direction it = BACKWARD
                    then (if rest = [] then v_from v else next_from h it rest)
                    else head_from h it hc),
          v_through = (if direction it = BACKWARD then head_through h it hc
                       else (if rest = [] then v_through v else next_through h it rest)),
          v_nextChunk = (if rest = [] then v_nextChunk v else Peek rest),
          v_includesOverlap = True\<rparr>)"

text \<open>The batch of a step that popped \<open>ps\<close> in all, from an iterator with carry
  \<open>lastOverlapping it\<close>.\<close>

definition batch_of :: "batchChunkIterator \<Rightarrow> ptr list \<Rightarrow> ptr list" where
  "batch_of it ps =
     (if direction it = FORWARD then lastOverlapping it @ ps
      else take (nat (batchSize it)) ps @ lastOverlapping it @ drop (nat (batchSize it)) ps)"

text \<open>Loop invariants. After some passes the first \<open>n\<close> chunks are popped and the batch
  holds them with the carry; the bound on the side of the head chunk has its final
  value; the loop goes on (\<open>stalled\<close>) while the width is not positive, and is left
  (\<open>settled\<close>) with the other bound taken from the first remaining chunk or, when none
  remains, either still at the query's bound or with a width that is not positive.\<close>

definition popped_so_far :: "batchChunkIterator \<Rightarrow> batchChunkIterator \<Rightarrow> locals \<Rightarrow> nat \<Rightarrow> bool" where
  "popped_so_far it0 it1 v1 n =
     (0 < n \<and> it1 = it0\<lparr>chunks := drop n (chunks it0)\<rparr> \<and>
      (nat (batchSize it0) \<le> n \<or> drop n (chunks it0) = []) \<and>
      v_batch v1 = batch_of it0 (take n (chunks it0)))"

definition near_bound :: "heap \<Rightarrow> ptr \<Rightarrow> batchChunkIterator \<Rightarrow> locals \<Rightarrow> bool" where
  "near_bound h hc it0 v1 =
     ((direction it0 = FORWARD \<longrightarrow> v_from v1 = head_from h it0 hc) \<and>
      (direction it0 = BACKWARD \<longrightarrow> v_through v1 = head_through h it0 hc))"

definition far_bound :: "heap \<Rightarrow> batchChunkIterator \<Rightarrow> ptr list \<Rightarrow> locals \<Rightarrow> bool" where
  "far_bound h it0 rest v1 =
     ((direction it0 = FORWARD \<longrightarrow> v_through v1 = next_through h it0 rest) \<and>
      (direction it0 = BACKWARD \<longrightarrow> v_from v1 = next_from h it0 rest))"

definition stalled :: "heap \<Rightarrow> ptr \<Rightarrow> batchChunkIterator \<Rightarrow> batchChunkIterator \<Rightarrow> locals \<Rightarrow> bool" where
  "stalled h hc it0 it1 v1 =
     ((\<exists>n. popped_so_far it0 it1 v1 n) \<and> v_includesOverlap v1 \<and> \<not> yields_nil h it0 hc \<and>
      Sub (v_through v1) (v_from v1) \<le> 0 \<and> near_bound h hc it0 v1)"

definition settled :: "heap \<Rightarrow> ptr \<Rightarrow> batchChunkIterator \<Rightarrow> batchChunkIterator \<Rightarrow> locals \<Rightarrow> bool" where
  "settled h hc it0 it1 v1 =
     ((\<exists>n. popped_so_far it0 it1 v1 n) \<and> near_bound h hc it0 v1 \<and>
      (chunks it1 \<noteq> [] \<longrightarrow>
         0 < Sub (v_through v1) (v_from v1) \<and> v_nextChunk v1 = Peek (chunks it1) \<and>
         far_bound h it0 (chunks it1) v1) \<and>
      (chunks it1 = [] \<longrightarrow> Sub (v_through v1) (v_from v1) \<le> 0 \<or> far_bound h it0 [] v1))"

text \<open>What a planning step comes to when it plans a window.\<close>

definition planned :: "heap \<Rightarrow> ptr \<Rightarrow> batchChunkIterator \<Rightarrow> batchChunkIterator \<Rightarrow> locals \<Rightarrow> bool" where
  "planned h hc it it' v =
     ((\<exists>n. 0 < n \<and> chunks it' = drop n (chunks it) \<and> v_batch v = batch_of it (take n (chunks it)))
      \<and> it' = it\<lparr>chunks := chunks it', lastOverlapping := lastOverlapping it'\<rparr>
      \<and> near_bound h hc it v \<and> far_bound h it (chunks it') v
      \<and> (case chunks it' of
            [] \<Rightarrow> lastOverlapping it' = lastOverlapping it
          | c # _ \<Rightarrow> v_nextChunk v = Some c \<and> 0 < Sub (v_through v) (v_from v) \<and>
                lastOverlapping it' = filter (\<lambda>x. IsOverlapping h x c (direction it)) (v_batch v)))"

subsection \<open>Reading a result\<close>

text \<open>Projections of what \<open>nextBatch_plan\<close> and \<open>nextBatch\<close> return, for the statements
  about concrete runs: the batch, the bounds and the iterator of a planned window, and
  the error and the bounds of a returned batch.\<close>

definition planned_batch :: "plan option \<Rightarrow> ptr list option" where
  "planned_batch p = (case p of Some (Plan it v) \<Rightarrow> Some (v_batch v) | _ \<Rightarrow> None)"

definition planned_bounds :: "plan option \<Rightarrow> (Time \<times> Time) option" where
  "planned_bounds p = (case p of Some (Plan it v) \<Rightarrow> Some (v_from v, v_through v) | _ \<Rightarrow> None)"

definition planned_it :: "plan option \<Rightarrow> (ptr list \<times> ptr list) option" where
  "planned_it p = (case p of Some (Plan it v) \<Rightarrow> Some (chunks it, lastOverlapping it) | _ \<Rightarrow> None)"

definition window_of ::
  "(result \<times> batchChunkIterator \<times> heap) option \<Rightarrow> (error option \<times> Time \<times> Time) option" where
  "window_of x =
     (case x of
        Some (Returned (Some b), it, h) \<Rightarrow> Some (err b, from' b, through' b)
      | _ \<Rightarrow> None)"

section \<open>Interval partitioner: proofs\<close>

lemma place_mset:
  "place h c css = Some css' \<Longrightarrow> mset (concat css') = add_mset c (mset (concat css))"
  by (induction css arbitrary: css') (auto split: if_splits)

lemma partition_loop_mset:
  "mset (concat (partition_loop h cs css)) = mset cs + mset (concat css)"
  by (induction cs arbitrary: css) (auto split: option.splits simp: place_mset)

lemma seq_ok_mono: "seq_ok h k cs \<Longrightarrow> k \<le> k' \<Longrightarrow> seq_ok h k' cs"
  by (auto simp: seq_ok_def)

lemma seq_ok_single: "seq_ok h (sint (chunk_From h c)) [c]"
  by (simp add: seq_ok_def disjoint_seq_def)

lemma seq_ok_snoc:
  assumes "seq_ok h (sint (chunk_From h c)) cs"
    and "Before_ms (chunk_Through h (last cs)) (chunk_From h c)"
  shows "seq_ok h (sint (chunk_From h c)) (cs @ [c])"
  using assms
  by (auto simp: seq_ok_def disjoint_seq_def successively_append_iff sorted_append)

lemma place_ok:
  "place h c css = Some css' \<Longrightarrow> \<forall>cs\<in>set css. seq_ok h (sint (chunk_From h c)) cs
   \<Longrightarrow> \<forall>cs\<in>set css'. seq_ok h (sint (chunk_From h c)) cs"
  by (induction css arbitrary: css') (auto split: if_splits simp: seq_ok_snoc)

lemma partition_loop_ok:
  "sorted (map (\<lambda>c. sint (chunk_From h c)) cs) \<Longrightarrow>
   (\<forall>xs\<in>set css. \<forall>c\<in>set cs. seq_ok h (sint (chunk_From h c)) xs) \<Longrightarrow>
   (\<forall>xs\<in>set css. xs \<noteq> [] \<and> disjoint_seq h xs) \<Longrightarrow>
   \<forall>xs\<in>set (partition_loop h cs css). xs \<noteq> [] \<and> disjoint_seq h xs"
proof (induction cs arbitrary: css)
  case Nil
  then show ?case by simp
next
  case (Cons c cs)
  let ?k = "sint (chunk_From h c)"
  have ok: "\<forall>xs\<in>set css. seq_ok h ?k xs" using Cons.prems(2) by simp
  have le: "\<forall>d\<in>set cs. ?k \<le> sint (chunk_From h d)" using Cons.prems(1) by simp
  have srt: "sorted (map (\<lambda>c. sint (chunk_From h c)) cs)" using Cons.prems(1) by simp
  show ?case
  proof (cases "place h c css")
    case None
    have a: "\<forall>xs\<in>set (css @ [[c]]). seq_ok h ?k xs" using ok seq_ok_single by auto
    then have b: "\<forall>xs\<in>set (css @ [[c]]). \<forall>d\<in>set cs. seq_ok h (sint (chunk_From h d)) xs"
      using le seq_ok_mono by blast
    have c: "\<forall>xs\<in>set (css @ [[c]]). xs \<noteq> [] \<and> disjoint_seq h xs"
      using a by (auto simp: seq_ok_def)
    show ?thesis using Cons.IH[OF srt b c] None by simp
  next
    case (Some css')
    have a: "\<forall>xs\<in>set css'. seq_ok h ?k xs" using place_ok[OF Some ok] .
    then have b: "\<forall>xs\<in>set css'. \<forall>d\<in>set cs. seq_ok h (sint (chunk_From h d)) xs"
      using le seq_ok_mono by blast
    have c: "\<forall>xs\<in>set css'. xs \<noteq> [] \<and> disjoint_seq h xs"
      using a by (auto simp: seq_ok_def)
    show ?thesis using Cons.IH[OF srt b c] Some by simp
  qed
qed

lemma sorted_sort_by_From: "sorted (map (\<lambda>c. sint (chunk_From h c)) (sort_by_From h cs))"
  by (simp add: sort_by_From_def)

lemma mset_sort_by_From: "mset (sort_by_From h cs) = mset cs"
  by (simp add: sort_by_From_def)

lemma partitionOverlappingChunks_ok:
  "\<forall>xs\<in>set (partitionOverlappingChunks h cs). xs \<noteq> [] \<and> disjoint_seq h xs"
  unfolding partitionOverlappingChunks_def
  by (rule partition_loop_ok[OF sorted_sort_by_From]) simp_all

lemma partitionOverlappingChunks_mset:
  "mset (concat (partitionOverlappingChunks h cs)) = mset cs"
  by (simp add: partitionOverlappingChunks_def partition_loop_mset mset_sort_by_From)

text \<open>
  Claim C4. For every list of chunk references, \<open>partitionOverlappingChunks\<close> returns
  sequences in each of which every chunk ends strictly before the next one starts and
  the start times ascend, and the sequences together hold every input reference exactly
  as often as the input does: their concatenation is a permutation of the input.
\<close>

theorem partitionOverlappingChunks_disjoint_permutation:
  "(\<forall>xs \<in> set (partitionOverlappingChunks h cs). disjoint_seq h xs)
   \<and> mset (concat (partitionOverlappingChunks h cs)) = mset cs"
  using partitionOverlappingChunks_ok partitionOverlappingChunks_mset by blast

theorem partitionOverlappingChunks_disjoint_permutation_witness:
  "partitionOverlappingChunks example_heap [2, 1, 0] = [[0, 2], [1]]
   \<and> disjoint_seq example_heap [0, 2] \<and> disjoint_seq example_heap [1]
   \<and> mset (concat [[0, 2], [1 :: nat]]) = mset [2, 1, 0]"
proof -
  have e: "partitionOverlappingChunks example_heap [2, 1, 0] = [[0, 2], [1]]"
    by (simp add: partitionOverlappingChunks_def sort_by_From_def example_heap_def
        example_chunk_def chunk_From_def chunk_Through_def Before_ms_def)
  show ?thesis
    using partitionOverlappingChunks_disjoint_permutation [of example_heap "[2, 1, 0]"]
    unfolding e by simp
qed

section \<open>Batch planner: proofs\<close>

lemma Sub_pos: "0 < Sub t u \<longleftrightarrow> u < t"
  by (simp add: Sub_def Let_def)

lemma Sub_nonpos: "Sub t u \<le> 0 \<longleftrightarrow> t \<le> u"
  by (simp add: Sub_def Let_def)

lemma Direction_cases: "d = FORWARD \<or> d = BACKWARD"
  by (cases d) auto

lemma loop_body_unfold:
  "loop_body h hc it v =
     (case drop (nat (batchSize it)) (chunks it) of
        [] \<Rightarrow> bounds_from_head h hc (it\<lparr>chunks := []\<rparr>)
                (v\<lparr>v_batch := grown_batch it v, v_includesOverlap := True\<rparr>)
      | n # ns \<Rightarrow> bounds_from_head h hc (it\<lparr>chunks := n # ns\<rparr>)
                (bounds_from_next h n (it\<lparr>chunks := n # ns\<rparr>)
                   (v\<lparr>v_batch := grown_batch it v, v_includesOverlap := True\<rparr>)))"
  using Direction_cases[of "direction it"]
  by (auto simp: loop_body_def pop_def Let_def Len_def Peek_def grown_batch_def split: list.splits)

lemma check_width_it: "step_it (check_width it v) = it"
  by (simp add: check_width_def)

lemma bounds_from_head_it: "step_it (bounds_from_head h hc it v) = it"
  by (simp add: bounds_from_head_def Let_def check_width_it)

lemma loop_body_it:
  "step_it (loop_body h hc it v) = it\<lparr>chunks := drop (nat (batchSize it)) (chunks it)\<rparr>"
  by (simp add: loop_body_def pop_def Let_def bounds_from_head_it Peek_def Len_def split: list.splits)

lemma loop_body_decreases:
  assumes "0 < batchSize it" "chunks it \<noteq> []" "loop_body h hc it v = Continue it' v'"
  shows "length (chunks it') < length (chunks it) \<and> batchSize it' = batchSize it"
proof -
  have "it' = it\<lparr>chunks := drop (nat (batchSize it)) (chunks it)\<rparr>"
    using loop_body_it[of h hc it v] assms(3) by simp
  then show ?thesis using assms(1,2) by simp
qed

lemma nextBatch_loop_rule:
  assumes bs: "0 < batchSize it"
    and inv: "I it v"
    and cont: "\<And>it v it' v'. I it v \<Longrightarrow> chunks it \<noteq> [] \<Longrightarrow> loop_body h hc it v = Continue it' v' \<Longrightarrow> I it' v'"
    and leave: "\<And>it v s. I it v \<Longrightarrow> chunks it \<noteq> [] \<Longrightarrow> loop_body h hc it v = s
                  \<Longrightarrow> (\<forall>it' v'. s \<noteq> Continue it' v') \<Longrightarrow> Q s"
    and fin: "\<And>it v. I it v \<Longrightarrow> chunks it = [] \<Longrightarrow> Q (Break it v)"
  shows "\<exists>s. nextBatch_loop h hc it v = Some s \<and> Q s"
  using bs inv
proof (induction "length (chunks it)" arbitrary: it v rule: less_induct)
  case less
  show ?case
  proof (cases "chunks it = []")
    case True
    then show ?thesis using fin[OF less.prems(2)] by (subst nextBatch_loop.simps) (simp add: Len_def)
  next
    case False
    show ?thesis
    proof (cases "loop_body h hc it v")
      case (Continue it' v')
      have d: "length (chunks it') < length (chunks it)" "0 < batchSize it'"
        using loop_body_decreases[OF less.prems(1) False Continue] less.prems(1) by auto
      have "I it' v'" using cont[OF less.prems(2) False Continue] .
      from less.hyps[OF d(1) d(2) this] show ?thesis
        using False Continue by (subst nextBatch_loop.simps) (simp add: Len_def)
    next
      case (ReturnNil x)
      then show ?thesis using leave[OF less.prems(2) False ReturnNil] False
        by (subst nextBatch_loop.simps) (simp add: Len_def)
    next
      case (Panicked x)
      then show ?thesis using leave[OF less.prems(2) False Panicked] False
        by (subst nextBatch_loop.simps) (simp add: Len_def)
    next
      case (Break x y)
      then show ?thesis using leave[OF less.prems(2) False Break] False
        by (subst nextBatch_loop.simps) (simp add: Len_def)
    qed
  qed
qed

lemma loop_body_chunks:
  "loop_body h hc it v = s \<Longrightarrow> step_it s = it\<lparr>chunks := drop (nat (batchSize it)) (chunks it)\<rparr>"
  using loop_body_it by blast

lemma check_width_Break:
  "check_width it v = Break it' v' \<Longrightarrow> 0 < Sub (v_through v') (v_from v')"
  by (auto simp: check_width_def split: if_splits)

lemma bounds_from_head_Break:
  "bounds_from_head h hc it v = Break it' v' \<Longrightarrow> 0 < Sub (v_through v') (v_from v')"
  by (auto simp: bounds_from_head_def Let_def split: if_splits dest: check_width_Break)

lemma loop_body_Break:
  "loop_body h hc it v = Break it' v' \<Longrightarrow> 0 < Sub (v_through v') (v_from v')"
  by (auto simp: loop_body_def Let_def pop_def split: if_splits option.splits dest: bounds_from_head_Break)

lemma nextBatch_loop_width:
  assumes "0 < batchSize it"
  shows "\<exists>s. nextBatch_loop h hc it v = Some s \<and>
           (\<exists>cs. step_it s = it\<lparr>chunks := cs\<rparr>) \<and>
           (\<forall>it' v'. s \<noteq> Continue it' v') \<and>
           (\<forall>it' v'. s = Break it' v' \<longrightarrow> 0 < Sub (v_through v') (v_from v') \<or> chunks it' = [])"
proof (rule nextBatch_loop_rule[where I = "\<lambda>it' v'. \<exists>cs. it' = it\<lparr>chunks := cs\<rparr>", OF assms])
  show "\<exists>cs. it = it\<lparr>chunks := cs\<rparr>" by (rule exI[of _ "chunks it"]) simp
next
  fix it1 v1 it' v'
  assume "\<exists>cs. it1 = it\<lparr>chunks := cs\<rparr>" "loop_body h hc it1 v1 = Continue it' v'"
  then show "\<exists>cs. it' = it\<lparr>chunks := cs\<rparr>"
    using loop_body_chunks[of h hc it1 v1 "Continue it' v'"] by auto
next
  fix it1 v1 s
  assume a: "\<exists>cs. it1 = it\<lparr>chunks := cs\<rparr>" "loop_body h hc it1 v1 = s" "\<forall>it' v'. s \<noteq> Continue it' v'"
  have "\<exists>cs. step_it s = it\<lparr>chunks := cs\<rparr>"
    using loop_body_chunks[OF a(2)] a(1) by auto
  moreover have "\<forall>it' v'. s = Break it' v' \<longrightarrow> 0 < Sub (v_through v') (v_from v')"
    using a(2) loop_body_Break by blast
  ultimately show "(\<exists>cs. step_it s = it\<lparr>chunks := cs\<rparr>) \<and>
           (\<forall>it' v'. s \<noteq> Continue it' v') \<and>
           (\<forall>it' v'. s = Break it' v' \<longrightarrow> 0 < Sub (v_through v') (v_from v') \<or> chunks it' = [])"
    using a(3) by blast
next
  fix it1 v1
  assume "\<exists>cs. it1 = it\<lparr>chunks := cs\<rparr>" "chunks it1 = []"
  then show "(\<exists>cs. step_it (Break it1 v1) = it\<lparr>chunks := cs\<rparr>) \<and>
           (\<forall>it' v'. Break it1 v1 \<noteq> Continue it' v') \<and>
           (\<forall>it' v'. Break it1 v1 = Break it' v' \<longrightarrow> 0 < Sub (v_through v') (v_from v') \<or> chunks it' = [])"
    by auto
qed

lemma after_loop_cases:
  assumes "0 < Sub (v_through v) (v_from v) \<or> chunks it = []"
    and "after_loop h it v = Plan it' v'"
  shows "0 < Sub (v_through v') (v_from v') \<or>
         (chunks it' = [] \<and> (direction it = BACKWARD \<longrightarrow> v_from v' = start it)
            \<and> (direction it = FORWARD \<longrightarrow> v_through v' = end' it))"
  using assms
  by (auto simp: after_loop_def Let_def Len_def Sub_pos Sub_nonpos split: if_splits option.splits)

theorem nextBatch_plan_width_or_reset:
  assumes "0 < batchSize it"
  shows "\<exists>p. nextBatch_plan h it = Some p \<and>
           (\<forall>it' v. p = Plan it' v \<longrightarrow>
              0 < Sub (v_through v) (v_from v) \<or>
              (chunks it' = [] \<and> (direction it = BACKWARD \<longrightarrow> v_from v = start it)
                 \<and> (direction it = FORWARD \<longrightarrow> v_through v = end' it)))"
proof (cases "Peek (chunks it)")
  case None
  then show ?thesis by (simp add: nextBatch_plan_def)
next
  case (Some hc)
  let ?v0 = "\<lparr>v_batch = [], v_from = start it, v_through = end' it,
              v_nextChunk = None, v_includesOverlap = False\<rparr>"
  obtain s where s: "nextBatch_loop h hc it ?v0 = Some s"
    "\<exists>cs. step_it s = it\<lparr>chunks := cs\<rparr>" "\<forall>it' v'. s \<noteq> Continue it' v'"
    "\<forall>it' v'. s = Break it' v' \<longrightarrow> 0 < Sub (v_through v') (v_from v') \<or> chunks it' = []"
    using nextBatch_loop_width[OF assms, of h hc ?v0] by blast
  have nn: "\<not> batchSize it + int (length (lastOverlapping it)) < 0" using assms by simp
  show ?thesis
  proof (cases s)
    case (Break it1 v1)
    obtain cs where cs: "it1 = it\<lparr>chunks := cs\<rparr>" using s(2) Break by auto
    have w: "0 < Sub (v_through v1) (v_from v1) \<or> chunks it1 = []" using s(4) Break by blast
    have p: "nextBatch_plan h it = Some (after_loop h it1 v1)"
      using Some nn s(1) Break by (simp add: nextBatch_plan_def)
    show ?thesis using p after_loop_cases[OF w] cs by auto
  next
    case (Continue x y)
    then show ?thesis using s(3) by blast
  next
    case (ReturnNil x)
    then show ?thesis using Some nn s(1) by (simp add: nextBatch_plan_def)
  next
    case (Panicked x)
    then show ?thesis using Some nn s(1) by (simp add: nextBatch_plan_def)
  qed
qed

lemma bounds_from_next_bounded:
  assumes "bounded it v"
    and "direction it = FORWARD \<longrightarrow> UnixNano (chunk_From h n) \<le> end' it"
    and "direction it = BACKWARD \<longrightarrow> start it \<le> UnixNano (chunk_Through h n)"
  shows "bounded it (bounds_from_next h n it v)"
  using assms Direction_cases[of "direction it"]
  by (auto simp: bounded_def bounds_from_next_def Let_def)

lemma check_width_bounded:
  "bounded it v \<Longrightarrow> check_width it v = s \<Longrightarrow>
   (\<forall>it' v'. s = Break it' v' \<or> s = Continue it' v' \<longrightarrow> bounded it v')"
  by (auto simp: check_width_def split: if_splits)

lemma bounds_from_head_bounded:
  assumes "bounded it v" "bounds_from_head h hc it v = s"
  shows "\<forall>it' v'. s = Break it' v' \<or> s = Continue it' v' \<longrightarrow> bounded it v'"
proof (cases "direction it = BACKWARD")
  case True
  let ?t = "UnixNano (chunk_Through h hc)"
  let ?t1 = "if end' it < ?t then end' it else ?t"
  let ?t2 = "if ?t1 \<noteq> end' it then ?t1 + 1 else ?t1"
  have b: "bounded it (v\<lparr>v_through := ?t2\<rparr>)" using assms(1) by (auto simp: bounded_def)
  have "s = check_width it (v\<lparr>v_through := ?t2\<rparr>)"
    using assms(2) True by (simp add: bounds_from_head_def Let_def)
  then show ?thesis using check_width_bounded[OF b] by metis
next
  case False
  let ?f = "UnixNano (chunk_From h hc)"
  let ?f1 = "if ?f = end' it then end' it else ?f"
  let ?f2 = "if ?f1 < start it then start it else ?f1"
  have b: "bounded it (v\<lparr>v_from := ?f2\<rparr>)" using assms(1) by (auto simp: bounded_def)
  show ?thesis
  proof (cases "?f = end' it \<and> end' it \<noteq> start it")
    case True
    then have "s = ReturnNil it" using assms(2) False by (simp add: bounds_from_head_def Let_def)
    then show ?thesis by simp
  next
    case nn: False
    have "s = check_width it (v\<lparr>v_from := ?f2\<rparr>)"
      using assms(2) False nn by (auto simp: bounds_from_head_def Let_def)
    then show ?thesis using check_width_bounded[OF b] by metis
  qed
qed

lemma bounded_chunks_upd: "bounded (it\<lparr>chunks := cs\<rparr>) v = bounded it v"
  by (simp add: bounded_def)

lemma bounded_batch_upd: "bounded it (v\<lparr>v_batch := b, v_includesOverlap := t\<rparr>) = bounded it v"
  by (simp add: bounded_def)

lemma loop_body_bounded:
  assumes "bounded it v" "within_query h it" "loop_body h hc it v = s"
  shows "\<forall>it' v'. s = Break it' v' \<or> s = Continue it' v' \<longrightarrow> bounded it v'"
proof -
  let ?rest = "drop (nat (batchSize it)) (chunks it)"
  let ?it1 = "it\<lparr>chunks := ?rest\<rparr>"
  let ?b = "grown_batch it v"
  have s: "s = (case ?rest of
        [] \<Rightarrow> bounds_from_head h hc ?it1 (v\<lparr>v_batch := ?b, v_includesOverlap := True\<rparr>)
      | n # ns \<Rightarrow> bounds_from_head h hc ?it1
                (bounds_from_next h n ?it1 (v\<lparr>v_batch := ?b, v_includesOverlap := True\<rparr>)))"
    using assms(3) by (auto simp: loop_body_unfold split: list.splits)
  have b1: "bounded ?it1 (v\<lparr>v_batch := ?b, v_includesOverlap := True\<rparr>)"
    using assms(1) by (simp add: bounded_def)
  show ?thesis
  proof (cases ?rest)
    case Nil
    then have "s = bounds_from_head h hc ?it1 (v\<lparr>v_batch := ?b, v_includesOverlap := True\<rparr>)"
      using s by simp
    then show ?thesis using bounds_from_head_bounded[OF b1] by (metis bounded_chunks_upd)
  next
    case (Cons n ns)
    then have "n \<in> set (chunks it)" by (metis in_set_dropD list.set_intros(1))
    then have r: "direction it = FORWARD \<longrightarrow> UnixNano (chunk_From h n) \<le> end' it"
      "direction it = BACKWARD \<longrightarrow> start it \<le> UnixNano (chunk_Through h n)"
      using assms(2) by (auto simp: within_query_def)
    have b2: "bounded ?it1 (bounds_from_next h n ?it1 (v\<lparr>v_batch := ?b, v_includesOverlap := True\<rparr>))"
      by (rule bounds_from_next_bounded[OF b1]) (use r in simp_all)
    have "s = bounds_from_head h hc ?it1 (bounds_from_next h n ?it1 (v\<lparr>v_batch := ?b, v_includesOverlap := True\<rparr>))"
      using s Cons by simp
    then show ?thesis using bounds_from_head_bounded[OF b2] by (metis bounded_chunks_upd)
  qed
qed

lemma within_query_drop:
  "within_query h it \<Longrightarrow> within_query h (it\<lparr>chunks := drop n (chunks it)\<rparr>)"
  by (auto simp: within_query_def dest: in_set_dropD)

lemma nextBatch_loop_bounded:
  assumes "0 < batchSize it" "within_query h it" "bounded it v"
  shows "\<exists>s. nextBatch_loop h hc it v = Some s \<and>
           (\<forall>it' v'. s = Break it' v' \<longrightarrow> bounded it v' \<and> (\<exists>cs. it' = it\<lparr>chunks := cs\<rparr>))"
proof (rule nextBatch_loop_rule[where
      I = "\<lambda>it' v'. (\<exists>n. it' = it\<lparr>chunks := drop n (chunks it)\<rparr>) \<and> bounded it v'", OF assms(1)])
  show "(\<exists>n. it = it\<lparr>chunks := drop n (chunks it)\<rparr>) \<and> bounded it v"
    using assms(3) by (auto intro: exI[of _ 0])
next
  fix it1 v1 it' v'
  assume a: "(\<exists>n. it1 = it\<lparr>chunks := drop n (chunks it)\<rparr>) \<and> bounded it v1"
    "loop_body h hc it1 v1 = Continue it' v'"
  then obtain n where n: "it1 = it\<lparr>chunks := drop n (chunks it)\<rparr>" by blast
  have w: "within_query h it1" using within_query_drop[OF assms(2)] n by simp
  have b: "bounded it1 v1" using a(1) n by (simp add: bounded_def)
  have "bounded it1 v'" using loop_body_bounded[OF b w a(2)] by blast
  then have "bounded it v'" using n by (simp add: bounded_def)
  moreover have "it' = it\<lparr>chunks := drop (nat (batchSize it) + n) (chunks it)\<rparr>"
    using loop_body_chunks[OF a(2)] n by simp
  ultimately show "(\<exists>n. it' = it\<lparr>chunks := drop n (chunks it)\<rparr>) \<and> bounded it v'" by blast
next
  fix it1 v1 s
  assume a: "(\<exists>n. it1 = it\<lparr>chunks := drop n (chunks it)\<rparr>) \<and> bounded it v1"
    "loop_body h hc it1 v1 = s"
  then obtain n where n: "it1 = it\<lparr>chunks := drop n (chunks it)\<rparr>" by blast
  have w: "within_query h it1" using within_query_drop[OF assms(2)] n by simp
  have b: "bounded it1 v1" using a(1) n by (simp add: bounded_def)
  have "\<forall>it' v'. s = Break it' v' \<longrightarrow> bounded it1 v'" using loop_body_bounded[OF b w a(2)] by blast
  then have "\<forall>it' v'. s = Break it' v' \<longrightarrow> bounded it v'" using n by (simp add: bounded_def)
  moreover have "\<forall>it' v'. s = Break it' v' \<longrightarrow> (\<exists>cs. it' = it\<lparr>chunks := cs\<rparr>)"
    using loop_body_chunks[OF a(2)] n by auto
  ultimately show "\<forall>it' v'. s = Break it' v' \<longrightarrow> bounded it v' \<and> (\<exists>cs. it' = it\<lparr>chunks := cs\<rparr>)"
    by blast
next
  fix it1 v1
  assume "(\<exists>n. it1 = it\<lparr>chunks := drop n (chunks it)\<rparr>) \<and> bounded it v1"
  then show "\<forall>it' v'. Break it1 v1 = Break it' v' \<longrightarrow> bounded it v' \<and> (\<exists>cs. it' = it\<lparr>chunks := cs\<rparr>)"
    by auto
qed

lemma after_loop_bounded:
  "bounded it v \<Longrightarrow> after_loop h it v = Plan it' v' \<Longrightarrow> bounded it v'"
  by (auto simp: after_loop_def Let_def bounded_def split: if_splits option.splits)

lemma nextBatch_plan_bounded:
  assumes "0 < batchSize it" "within_query h it"
  shows "\<exists>p. nextBatch_plan h it = Some p \<and> (\<forall>it' v. p = Plan it' v \<longrightarrow> bounded it v)"
proof (cases "Peek (chunks it)")
  case None
  then show ?thesis by (simp add: nextBatch_plan_def)
next
  case (Some hc)
  let ?v0 = "\<lparr>v_batch = [], v_from = start it, v_through = end' it,
              v_nextChunk = None, v_includesOverlap = False\<rparr>"
  have b0: "bounded it ?v0" by (simp add: bounded_def)
  obtain s where s: "nextBatch_loop h hc it ?v0 = Some s"
    "\<forall>it' v'. s = Break it' v' \<longrightarrow> bounded it v' \<and> (\<exists>cs. it' = it\<lparr>chunks := cs\<rparr>)"
    using nextBatch_loop_bounded[OF assms b0, of hc] by blast
  obtain s' where s': "nextBatch_loop h hc it ?v0 = Some s'" "\<forall>it' v'. s' \<noteq> Continue it' v'"
    using nextBatch_loop_width[OF assms(1), of h hc ?v0] by blast
  have nc: "\<forall>it' v'. s \<noteq> Continue it' v'" using s(1) s' by simp
  have nn: "\<not> batchSize it + int (length (lastOverlapping it)) < 0" using assms by simp
  show ?thesis
  proof (cases s)
    case (Break it1 v1)
    obtain cs where cs: "it1 = it\<lparr>chunks := cs\<rparr>" using s(2) Break by auto
    have b: "bounded it1 v1" using s(2) Break cs by (simp add: bounded_def)
    have p: "nextBatch_plan h it = Some (after_loop h it1 v1)"
      using Some nn s(1) Break by (simp add: nextBatch_plan_def)
    have "\<forall>it' v. after_loop h it1 v1 = Plan it' v \<longrightarrow> bounded it v"
      using after_loop_bounded[OF b] cs by (auto simp: bounded_def)
    then show ?thesis using p by simp
  next
    case (Continue x y)
    then show ?thesis using nc by blast
  next
    case (ReturnNil x)
    then show ?thesis using Some nn s(1) by (simp add: nextBatch_plan_def)
  next
    case (Panicked x)
    then show ?thesis using Some nn s(1) by (simp add: nextBatch_plan_def)
  qed
qed

theorem nextBatch_window_within_query:
  assumes "0 < batchSize it" "within_query h it"
  shows "(\<exists>x. nextBatch r1 r2 it h = Some x) \<and>
         (\<forall>b it' h'. nextBatch r1 r2 it h = Some (Returned (Some b), it', h') \<and> err b = None
            \<longrightarrow> start it \<le> from' b \<and> through' b \<le> end' it)"
proof -
  obtain p where p: "nextBatch_plan h it = Some p" "\<forall>it' v. p = Plan it' v \<longrightarrow> bounded it v"
    using nextBatch_plan_bounded[OF assms] by blast
  show ?thesis
  proof (cases p)
    case (Plan it1 v)
    then have b: "bounded it v" using p(2) by simp
    show ?thesis using p(1) Plan b
      by (auto simp: nextBatch_def bounded_def error_batch_def panic_batch_def split: fetched.splits)
  next
    case (Plan_Nil x)
    then show ?thesis using p(1) by (simp add: nextBatch_def)
  next
    case (Plan_Panic x)
    then show ?thesis using p(1) by (simp add: nextBatch_def panic_batch_def error_batch_def)
  qed
qed

lemma loop_body_eq:
  "loop_body h hc it v =
     (let it1 = it\<lparr>chunks := drop (nat (batchSize it)) (chunks it)\<rparr>
      in if yields_nil h it hc then ReturnNil it1
         else check_width it1 (next_locals h hc it v))"
proof (cases "direction it")
  case FORWARD
  show ?thesis
    by (cases v; cases "drop (nat (batchSize it)) (chunks it)")
      (auto simp: loop_body_unfold FORWARD bounds_from_head_def bounds_from_next_def yields_nil_def
        next_locals_def Let_def head_from_def next_through_def Peek_def)
next
  case BACKWARD
  show ?thesis
    by (cases v; cases "drop (nat (batchSize it)) (chunks it)")
      (auto simp: loop_body_unfold BACKWARD bounds_from_head_def bounds_from_next_def yields_nil_def
        next_locals_def Let_def head_through_def next_from_def Peek_def)
qed

lemma next_locals_simps:
  "v_batch (next_locals h hc it v) = grown_batch it v"
  "v_includesOverlap (next_locals h hc it v)"
  "direction it = FORWARD \<Longrightarrow> v_from (next_locals h hc it v) = head_from h it hc"
  "direction it = BACKWARD \<Longrightarrow> v_through (next_locals h hc it v) = head_through h it hc"
  by (simp_all add: next_locals_def Let_def)

lemma next_locals_far_nonempty:
  "drop (nat (batchSize it)) (chunks it) \<noteq> [] \<Longrightarrow>
     far_bound h it (drop (nat (batchSize it)) (chunks it)) (next_locals h hc it v) \<and>
     v_nextChunk (next_locals h hc it v) = Peek (drop (nat (batchSize it)) (chunks it))"
  using Direction_cases[of "direction it"]
  by (auto simp: next_locals_def Let_def far_bound_def)

lemma next_locals_far_empty:
  "drop (nat (batchSize it)) (chunks it) = [] \<Longrightarrow>
     (direction it = FORWARD \<longrightarrow> v_through (next_locals h hc it v) = v_through v) \<and>
     (direction it = BACKWARD \<longrightarrow> v_from (next_locals h hc it v) = v_from v)"
  using Direction_cases[of "direction it"]
  by (auto simp: next_locals_def Let_def)

lemma head_chunks_upd [simp]:
  "head_from h (it\<lparr>chunks := cs\<rparr>) hc = head_from h it hc"
  "head_through h (it\<lparr>chunks := cs\<rparr>) hc = head_through h it hc"
  "next_from h (it\<lparr>chunks := cs\<rparr>) rest = next_from h it rest"
  "next_through h (it\<lparr>chunks := cs\<rparr>) rest = next_through h it rest"
  "yields_nil h (it\<lparr>chunks := cs\<rparr>) hc = yields_nil h it hc"
  "near_bound h hc (it\<lparr>chunks := cs\<rparr>) v = near_bound h hc it v"
  "far_bound h (it\<lparr>chunks := cs\<rparr>) rest v = far_bound h it rest v"
  by (simp_all add: head_from_def head_through_def next_from_def next_through_def yields_nil_def
      near_bound_def far_bound_def Let_def cong: list.case_cong)

lemma near_bound_next: "near_bound h hc it (next_locals h hc it v)"
  by (simp add: near_bound_def next_locals_simps)

lemma popped_first:
  assumes "0 < batchSize it" "chunks it \<noteq> []"
  shows "popped_so_far it (it\<lparr>chunks := drop (nat (batchSize it)) (chunks it)\<rparr>)
           (next_locals h hc it (v_init it)) (nat (batchSize it))"
  using assms Direction_cases[of "direction it"]
  by (auto simp: popped_so_far_def next_locals_simps grown_batch_def v_init_def batch_of_def Let_def)

lemma popped_next:
  assumes "0 < batchSize it0" "popped_so_far it0 it1 v1 n" "v_includesOverlap v1"
  shows "popped_so_far it0 (it1\<lparr>chunks := drop (nat (batchSize it1)) (chunks it1)\<rparr>)
           (next_locals h hc it1 v1) (n + nat (batchSize it0))"
proof -
  let ?b = "nat (batchSize it0)"
  let ?cs = "chunks it0"
  have e: "it1 = it0\<lparr>chunks := drop n ?cs\<rparr>" and n: "0 < n"
    and c: "?b \<le> n \<or> drop n ?cs = []"
    and vb: "v_batch v1 = batch_of it0 (take n ?cs)"
    using assms(2) by (simp_all add: popped_so_far_def)
  have it2: "it1\<lparr>chunks := drop (nat (batchSize it1)) (chunks it1)\<rparr>
             = it0\<lparr>chunks := drop (n + ?b) ?cs\<rparr>"
    by (subst e) (simp add: e add.commute)
  have g: "grown_batch it1 v1 = batch_of it0 (take n ?cs) @ take ?b (drop n ?cs)"
    using assms(3) vb by (subst e) (simp add: grown_batch_def e)
  have t: "take (n + ?b) ?cs = take n ?cs @ take ?b (drop n ?cs)"
    by (simp add: take_add)
  have b: "batch_of it0 (take n ?cs) @ take ?b (drop n ?cs) = batch_of it0 (take (n + ?b) ?cs)"
  proof (cases "drop n ?cs = []")
    case True
    then show ?thesis by (simp add: t)
  next
    case False
    then have "?b \<le> n" "n < length ?cs" using c by auto
    then show ?thesis by (simp add: t batch_of_def)
  qed
  show ?thesis
    unfolding popped_so_far_def it2
    using n c g b by (auto simp: next_locals_simps)
qed

lemma check_width_cases:
  "check_width it v = (if 0 < Sub (v_through v) (v_from v) then Break it v else Continue it v)"
  by (simp add: check_width_def)

lemma body_first:
  assumes bs: "0 < batchSize it" and ne: "chunks it \<noteq> []"
    and s: "loop_body h hc it (v_init it) = s"
  shows "(yields_nil h it hc \<longrightarrow> (\<exists>it'. s = ReturnNil it')) \<and>
         (\<not> yields_nil h it hc \<longrightarrow>
            (\<exists>it' v'. s = Break it' v' \<and> settled h hc it it' v') \<or>
            (\<exists>it' v'. s = Continue it' v' \<and> stalled h hc it it' v'))"
proof (cases "yields_nil h it hc")
  case True
  then show ?thesis using s by (auto simp: loop_body_eq)
next
  case False
  let ?rest = "drop (nat (batchSize it)) (chunks it)"
  let ?it1 = "it\<lparr>chunks := ?rest\<rparr>"
  let ?v1 = "next_locals h hc it (v_init it)"
  have p: "popped_so_far it ?it1 ?v1 (nat (batchSize it))" by (rule popped_first[OF bs ne])
  have nb: "near_bound h hc it ?v1" by (rule near_bound_next)
  have far: "?rest \<noteq> [] \<longrightarrow> far_bound h it ?rest ?v1 \<and> v_nextChunk ?v1 = Peek ?rest"
    using next_locals_far_nonempty by blast
  have far0: "?rest = [] \<longrightarrow> far_bound h it [] ?v1"
    using next_locals_far_empty[of it h hc "v_init it"] Direction_cases[of "direction it"]
    by (auto simp: far_bound_def v_init_def next_through_def next_from_def)
  show ?thesis
  proof (cases "0 < Sub (v_through ?v1) (v_from ?v1)")
    case True
    then have "s = Break ?it1 ?v1" using s False by (simp add: loop_body_eq check_width_cases)
    moreover have "settled h hc it ?it1 ?v1"
      unfolding settled_def using p nb far far0 True by auto
    ultimately show ?thesis using False by blast
  next
    case nw: False
    then have "s = Continue ?it1 ?v1" using s False by (simp add: loop_body_eq check_width_cases)
    moreover have "stalled h hc it ?it1 ?v1"
      unfolding stalled_def using p nb nw False by (auto simp: next_locals_simps)
    ultimately show ?thesis using False by blast
  qed
qed

lemma body_next:
  assumes bs: "0 < batchSize it0" and st: "stalled h hc it0 it1 v1" and ne: "chunks it1 \<noteq> []"
    and s: "loop_body h hc it1 v1 = s"
  shows "(\<exists>it' v'. s = Break it' v' \<and> settled h hc it0 it' v') \<or>
         (\<exists>it' v'. s = Continue it' v' \<and> stalled h hc it0 it' v')"
proof -
  obtain n where n: "popped_so_far it0 it1 v1 n" using st by (auto simp: stalled_def)
  have io: "v_includesOverlap v1" and ny: "\<not> yields_nil h it0 hc"
    and w: "Sub (v_through v1) (v_from v1) \<le> 0" and nb1: "near_bound h hc it0 v1"
    using st by (auto simp: stalled_def)
  have e: "it1 = it0\<lparr>chunks := drop n (chunks it0)\<rparr>" using n by (simp add: popped_so_far_def)
  have d: "direction it1 = direction it0" by (subst e) simp
  let ?rest = "drop (nat (batchSize it1)) (chunks it1)"
  let ?it2 = "it1\<lparr>chunks := ?rest\<rparr>"
  let ?v2 = "next_locals h hc it1 v1"
  have e2: "?it2 = it0\<lparr>chunks := ?rest\<rparr>" by (subst e) simp
  have ny1: "\<not> yields_nil h it1 hc" using ny by (subst e) simp
  have p: "popped_so_far it0 ?it2 ?v2 (n + nat (batchSize it0))" by (rule popped_next[OF bs n io])
  have "near_bound h hc it1 ?v2" by (rule near_bound_next)
  then have nb: "near_bound h hc it0 ?v2" by (subst (asm) e) simp
  have "?rest \<noteq> [] \<longrightarrow> far_bound h it1 ?rest ?v2 \<and> v_nextChunk ?v2 = Peek ?rest"
    using next_locals_far_nonempty by blast
  then have far: "?rest \<noteq> [] \<longrightarrow> far_bound h it0 ?rest ?v2 \<and> v_nextChunk ?v2 = Peek ?rest"
    by (subst (asm) e) simp
  have same: "?rest = [] \<longrightarrow> Sub (v_through ?v2) (v_from ?v2) = Sub (v_through v1) (v_from v1)"
    using next_locals_far_empty[of it1 h hc v1] Direction_cases[of "direction it0"] nb nb1 d
    by (auto simp: near_bound_def)
  show ?thesis
  proof (cases "0 < Sub (v_through ?v2) (v_from ?v2)")
    case True
    then have "s = Break ?it2 ?v2" using s ny1 by (simp add: loop_body_eq check_width_cases)
    moreover have "settled h hc it0 ?it2 ?v2"
      unfolding settled_def using p nb far same w True by auto
    ultimately show ?thesis by blast
  next
    case nw: False
    then have "s = Continue ?it2 ?v2" using s ny1 by (simp add: loop_body_eq check_width_cases)
    moreover have "stalled h hc it0 ?it2 ?v2"
      unfolding stalled_def using p nb nw ny by (auto simp: next_locals_simps)
    ultimately show ?thesis by blast
  qed
qed

lemma stalled_fin:
  "stalled h hc it0 it1 v1 \<Longrightarrow> chunks it1 = [] \<Longrightarrow> settled h hc it0 it1 v1"
  by (auto simp: stalled_def settled_def)

lemma nextBatch_loop_settles:
  assumes bs: "0 < batchSize it" and ne: "chunks it \<noteq> []"
  shows "\<exists>s. nextBatch_loop h hc it (v_init it) = Some s \<and>
           (yields_nil h it hc \<longrightarrow> (\<exists>it'. s = ReturnNil it')) \<and>
           (\<not> yields_nil h it hc \<longrightarrow> (\<exists>it' v'. s = Break it' v' \<and> settled h hc it it' v'))"
proof (rule nextBatch_loop_rule[where
      I = "\<lambda>it1 v1. (it1 = it \<and> v1 = v_init it) \<or> stalled h hc it it1 v1", OF bs])
  show "(it = it \<and> v_init it = v_init it) \<or> stalled h hc it it (v_init it)" by simp
next
  fix it1 v1 it' v'
  assume a: "(it1 = it \<and> v1 = v_init it) \<or> stalled h hc it it1 v1" "chunks it1 \<noteq> []"
    "loop_body h hc it1 v1 = Continue it' v'"
  from a(1) have "stalled h hc it it' v'"
  proof
    assume "it1 = it \<and> v1 = v_init it"
    then show ?thesis using body_first[OF bs ne, of h hc "Continue it' v'"] a(3) by auto
  next
    assume "stalled h hc it it1 v1"
    then show ?thesis using body_next[OF bs _ a(2) a(3)] by auto
  qed
  then show "(it' = it \<and> v' = v_init it) \<or> stalled h hc it it' v'" by simp
next
  fix it1 v1 s
  assume a: "(it1 = it \<and> v1 = v_init it) \<or> stalled h hc it it1 v1" "chunks it1 \<noteq> []"
    "loop_body h hc it1 v1 = s" "\<forall>it' v'. s \<noteq> Continue it' v'"
  from a(1) show "(yields_nil h it hc \<longrightarrow> (\<exists>it'. s = ReturnNil it')) \<and>
           (\<not> yields_nil h it hc \<longrightarrow> (\<exists>it' v'. s = Break it' v' \<and> settled h hc it it' v'))"
  proof
    assume "it1 = it \<and> v1 = v_init it"
    then show ?thesis using body_first[OF bs ne, of h hc s] a(3,4) by auto
  next
    assume st: "stalled h hc it it1 v1"
    then have "\<not> yields_nil h it hc" by (simp add: stalled_def)
    then show ?thesis using body_next[OF bs st a(2) a(3)] a(4) by auto
  qed
next
  fix it1 v1
  assume a: "(it1 = it \<and> v1 = v_init it) \<or> stalled h hc it it1 v1" "chunks it1 = []"
  then have st: "stalled h hc it it1 v1" using ne by auto
  then have "\<not> yields_nil h it hc" by (simp add: stalled_def)
  then show "(yields_nil h it hc \<longrightarrow> (\<exists>it'. Break it1 v1 = ReturnNil it')) \<and>
           (\<not> yields_nil h it hc \<longrightarrow> (\<exists>it' v'. Break it1 v1 = Break it' v' \<and> settled h hc it it' v'))"
    using stalled_fin[OF st a(2)] by simp
qed

lemma after_loop_settled:
  assumes "settled h hc it it1 v1"
  shows "\<exists>it' v. after_loop h it1 v1 = Plan it' v \<and> planned h hc it it' v"
proof -
  obtain n where n: "popped_so_far it it1 v1 n" using assms by (auto simp: settled_def)
  have e: "it1 = it\<lparr>chunks := drop n (chunks it)\<rparr>" and n0: "0 < n"
    and vb: "v_batch v1 = batch_of it (take n (chunks it))"
    using n by (simp_all add: popped_so_far_def)
  have c1: "chunks it1 = drop n (chunks it)" and d1: "direction it1 = direction it"
    and s1: "start it1 = start it" and e1: "end' it1 = end' it"
    and l1: "lastOverlapping it1 = lastOverlapping it"
    by (subst e, simp)+
  have nb: "near_bound h hc it v1" using assms by (simp add: settled_def)
  show ?thesis
  proof (cases "chunks it1")
    case Nil
    define v where "v = (if Sub (v_through v1) (v_from v1) \<le> 0
                then (if direction it = BACKWARD then v1\<lparr>v_from := start it\<rparr>
                      else v1\<lparr>v_through := end' it\<rparr>)
                else v1)"
    have a: "after_loop h it1 v1 = Plan it1 v"
      using Nil by (simp add: after_loop_def Let_def Len_def d1 s1 e1 v_def)
    have f: "Sub (v_through v1) (v_from v1) \<le> 0 \<or> far_bound h it [] v1"
      using assms Nil by (simp add: settled_def)
    have far: "far_bound h it [] v"
      using f Direction_cases[of "direction it"]
      by (auto simp: far_bound_def next_through_def next_from_def v_def)
    have near: "near_bound h hc it v"
      using nb Direction_cases[of "direction it"] by (auto simp: near_bound_def v_def)
    have b: "v_batch v = batch_of it (take n (chunks it))" using vb by (simp add: v_def)
    have i: "it1 = it\<lparr>chunks := chunks it1, lastOverlapping := lastOverlapping it1\<rparr>"
      by (subst e, subst e, subst e) simp
    have x: "\<exists>n. 0 < n \<and> chunks it1 = drop n (chunks it) \<and> v_batch v = batch_of it (take n (chunks it))"
      using n0 c1 b by blast
    have "planned h hc it it1 v"
      unfolding planned_def using x i near far l1 by (simp add: Nil)
    then show ?thesis using a by blast
  next
    case (Cons c cs)
    have w: "0 < Sub (v_through v1) (v_from v1)" and nc: "v_nextChunk v1 = Some c"
      and far: "far_bound h it (chunks it1) v1"
      using assms Cons by (simp_all add: settled_def Peek_def)
    define keep where "keep = filter (\<lambda>x. IsOverlapping h x c (direction it)) (v_batch v1)"
    define it' where "it' = it1\<lparr>lastOverlapping := keep\<rparr>"
    have a: "after_loop h it1 v1 = Plan it' v1"
      using Cons w nc by (simp add: after_loop_def Let_def Len_def carry_over_def d1 keep_def it'_def)
    have c': "chunks it' = c # cs" using Cons by (simp add: it'_def)
    have l': "lastOverlapping it' = keep" by (simp add: it'_def)
    have i: "it' = it\<lparr>chunks := chunks it', lastOverlapping := lastOverlapping it'\<rparr>"
      unfolding it'_def e by simp
    have x: "\<exists>n. 0 < n \<and> chunks it' = drop n (chunks it) \<and> v_batch v1 = batch_of it (take n (chunks it))"
      using n0 c1 vb c' Cons by auto
    have far': "far_bound h it (chunks it') v1" using far c' Cons by simp
    have k: "case chunks it' of
            [] \<Rightarrow> lastOverlapping it' = lastOverlapping it
          | c # _ \<Rightarrow> v_nextChunk v1 = Some c \<and> 0 < Sub (v_through v1) (v_from v1) \<and>
                lastOverlapping it' = filter (\<lambda>x. IsOverlapping h x c (direction it)) (v_batch v1)"
      using nc w l' by (simp add: c' keep_def)
    have "planned h hc it it' v1"
      unfolding planned_def using x i nb far' k by (intro conjI)
    then show ?thesis using a by blast
  qed
qed

lemma nextBatch_plan_char:
  assumes bs: "0 < batchSize it" and cs: "chunks it = hc # cs"
  shows "(yields_nil h it hc \<longrightarrow> (\<exists>it'. nextBatch_plan h it = Some (Plan_Nil it'))) \<and>
         (\<not> yields_nil h it hc \<longrightarrow>
            (\<exists>it' v. nextBatch_plan h it = Some (Plan it' v) \<and> planned h hc it it' v))"
proof -
  have ne: "chunks it \<noteq> []" using cs by simp
  have pk: "Peek (chunks it) = Some hc" using cs by (simp add: Peek_def)
  have nn: "\<not> batchSize it + int (length (lastOverlapping it)) < 0" using bs by simp
  obtain s where s: "nextBatch_loop h hc it (v_init it) = Some s"
    "yields_nil h it hc \<longrightarrow> (\<exists>it'. s = ReturnNil it')"
    "\<not> yields_nil h it hc \<longrightarrow> (\<exists>it' v'. s = Break it' v' \<and> settled h hc it it' v')"
    using nextBatch_loop_settles[OF bs ne, of h hc] by blast
  have p: "nextBatch_plan h it =
      (case s of ReturnNil it' \<Rightarrow> Some (Plan_Nil it') | Panicked it' \<Rightarrow> Some (Plan_Panic it')
       | Break it' v \<Rightarrow> Some (after_loop h it' v) | Continue it' v \<Rightarrow> Some (after_loop h it' v))"
    using pk nn s(1) by (simp add: nextBatch_plan_def v_init_def)
  show ?thesis
  proof (cases "yields_nil h it hc")
    case True
    then show ?thesis using s(2) p by auto
  next
    case False
    then obtain it1 v1 where b: "s = Break it1 v1" "settled h hc it it1 v1" using s(3) by blast
    show ?thesis using False p b(1) after_loop_settled[OF b(2)] by simp
  qed
qed

end
